theory Spec2Isabelle
  imports Main
begin

section \<open>The data model of \<^verbatim>\<open>generate/template/template.go\<close>\<close>

text \<open>
  The three structs of the source are records with the source's field names. A Go
  \<^verbatim>\<open>map[string]T\<close> is a partial function from strings; only the contents of a map
  are modelled, not whether the Go value is the nil map or an allocated empty one.
  A Go \<^verbatim>\<open>error\<close> value is a message.
\<close>

datatype error = Error string

record MethodDesc =
  Name :: string
  OriginalName :: string
  Num :: int
  Request :: string
  Reply :: string
  Comment :: string
  Extra :: "string \<rightharpoonup> string"

record PackageDesc =
  RequestType :: string
  ResponseType :: string
  ExtraDataType :: string
  NewExtraDataFunc :: string

text \<open>
  \<^verbatim>\<open>Methods\<close> is a slice of pointers and \<^verbatim>\<open>MethodSets\<close> stores the same pointers, so
  pointers are values of their own: \<open>Null\<close> is Go's \<^verbatim>\<open>nil\<close>, \<open>Ref a\<close> the object at
  address \<open>a\<close>. The store gives the object at every address: Go is memory safe, a
  pointer that is not nil always points to an object.
\<close>

datatype ptr = Null | Ref nat

record store =
  method_at :: "nat \<Rightarrow> MethodDesc"
  package_at :: "nat \<Rightarrow> PackageDesc"

record ServiceDesc =
  OptionsKey :: string
  ServiceType :: string
  ServiceName :: string
  Methods :: "ptr list"
  MethodSets :: "string \<rightharpoonup> ptr"
  Package :: ptr

text \<open>Reading \<^verbatim>\<open>m.Name\<close> through a pointer; on \<^verbatim>\<open>nil\<close> Go panics, which is \<open>None\<close>.\<close>

fun name_of :: "store \<Rightarrow> ptr \<Rightarrow> string option" where
  "name_of h Null = None"
| "name_of h (Ref a) = Some (Name (method_at h a))"

section \<open>\<^verbatim>\<open>ServiceDesc.Execute\<close>\<close>

text \<open>
  The loop \<^verbatim>\<open>for _, m := range s.Methods { s.MethodSets[m.Name] = m }\<close>, started on
  the map that \<^verbatim>\<open>make\<close> returned. The result is the map reached and whether the loop
  ran to its end (\<open>True\<close>) or stopped in a panic at a nil entry (\<open>False\<close>); the
  assignments made before the panic stay in the map.
\<close>

fun index_methods :: "store \<Rightarrow> ptr list \<Rightarrow> (string \<rightharpoonup> ptr) \<Rightarrow> bool \<times> (string \<rightharpoonup> ptr)" where
  "index_methods h [] ms = (True, ms)"
| "index_methods h (m # rest) ms =
     (case name_of h m of
        None \<Rightarrow> (False, ms)
      | Some n \<Rightarrow> index_methods h rest (ms(n \<mapsto> m)))"

text \<open>
  What a call of \<^verbatim>\<open>Execute\<close> does to its caller: it panics, or it returns the pair
  \<^verbatim>\<open>(string, error)\<close>, where \<open>None\<close> is the nil error.
\<close>

datatype outcome = Panic | Return string "error option"

text \<open>
  The template engine is Go's \<^verbatim>\<open>text/template\<close>, which is not part of the repository;
  its two entry points are parameters of the model. \<open>Parse\<close> is
  \<^verbatim>\<open>template.New("route").Parse\<close>: an error or a parsed template. \<open>Exec\<close> is
  \<^verbatim>\<open>tmpl.Execute(&buf, s)\<close>: it reads the service and everything reachable from it and
  gives the text written to the buffer, together with the error if the substitution
  stopped early (the buffer then holds what was written up to that point). The engine has
  no construct that assigns to a field of its data, so it is a function of the template
  and the data. The package variable \<^verbatim>\<open>routeTemplate\<close> is the argument \<open>routeTemplate\<close>.
  The receiver is updated in place: the model returns it together with the outcome.
\<close>

definition Execute ::
  "(string \<Rightarrow> error + 't) \<Rightarrow> ('t \<Rightarrow> store \<Rightarrow> ServiceDesc \<Rightarrow> string \<times> error option) \<Rightarrow>
   store \<Rightarrow> string \<Rightarrow> ServiceDesc \<Rightarrow> outcome \<times> ServiceDesc" where
  "Execute Parse Exec h routeTemplate s =
     (case index_methods h (Methods s) Map.empty of
        (finished, ms) \<Rightarrow>
          let s' = s\<lparr>MethodSets := ms\<rparr> in
          if \<not> finished then (Panic, s')
          else
            (case Parse routeTemplate of
               Inl err \<Rightarrow> (Return [] (Some err), s')
             | Inr tmpl \<Rightarrow>
                 (case Exec tmpl h s' of
                    (buf, Some err) \<Rightarrow> (Return [] (Some err), s')
                  | (buf, None) \<Rightarrow> (Return buf None, s'))))"

section \<open>\<^verbatim>\<open>ReplaceTemplateIfNeed\<close>\<close>

text \<open>
  \<open>ReadFile\<close> is \<^verbatim>\<open>os.ReadFile\<close> on the file system of the run: an error or the bytes
  of the file. The function returns its error (\<open>None\<close> is nil) and the value of the
  package variable \<^verbatim>\<open>routeTemplate\<close> after the call.
\<close>

definition ReplaceTemplateIfNeed ::
  "(string \<Rightarrow> error + string) \<Rightarrow> string \<Rightarrow> string \<Rightarrow> error option \<times> string" where
  "ReplaceTemplateIfNeed ReadFile path routeTemplate =
     (if path \<noteq> [] then
        (case ReadFile path of
           Inl err \<Rightarrow> (Some err, routeTemplate)
         | Inr raw \<Rightarrow> (None, raw))
      else (None, routeTemplate))"

section \<open>The index of a method list by name\<close>

text \<open>
  The index that the claims describe, written from their words and not from the loop: a
  name is bound when some entry of the list carries it, and it is bound to the last such
  entry.
\<close>

definition name_index :: "store \<Rightarrow> ptr list \<Rightarrow> (string \<rightharpoonup> ptr)" where
  "name_index h ms =
     (\<lambda>n. let named = filter (\<lambda>m. name_of h m = Some n) ms
          in if named = [] then None else Some (last named))"

section \<open>The descriptor-to-model compiler\<close>

text \<open>
  Modelled from the spec: the Annotation Extractor, the Name Disambiguator and the Model
  Builder (sections 4.1 to 4.3 of the specification) are code of the repository that is
  not among the sources at hand; only the structs they fill are. The definitions of this
  section follow the specification's text.

  The input is the descriptor set of section 6: files holding services holding methods,
  each method with zero or one annotation block with a \<open>key\<close> and a repeated \<open>extra\<close>
  of key/value pairs. An annotation that is present but unreadable surfaces as absent
  (section 7), so it is \<open>None\<close> as well. A type reference is either resolved or not;
  both carry the name written in the file.
\<close>

record Annotation =
  ann_key :: string
  ann_extra :: "(string \<times> string) list"

datatype type_ref = Resolved string | Unresolved string

fun type_name :: "type_ref \<Rightarrow> string" where
  "type_name (Resolved n) = n"
| "type_name (Unresolved n) = n"

fun is_resolved :: "type_ref \<Rightarrow> bool" where
  "is_resolved (Resolved n) = True"
| "is_resolved (Unresolved n) = False"

record MethodDef =
  method_name :: string
  method_input :: type_ref
  method_output :: type_ref
  method_comment :: string
  method_annotation :: "Annotation option"

record ServiceDef =
  service_name :: string
  service_full_name :: string
  service_methods :: "MethodDef list"

record FileDef =
  file_name :: string
  file_services :: "ServiceDef list"

type_synonym DescriptorSet = "FileDef list"

text \<open>
  Modelled from the spec: the ServiceDesc of section 3 as the Model Builder produces it,
  by value, with the specification's field names (the struct of the source holds
  pointers, and where the builder allocates is not known). Its methods are the
  \<open>MethodDesc\<close> of the source, whose fields \<open>Name\<close>, \<open>OriginalName\<close>, \<open>Num\<close>,
  \<open>Request\<close>, \<open>Reply\<close>, \<open>Comment\<close>, \<open>Extra\<close> are the specification's \<open>name\<close>,
  \<open>originalName\<close>, \<open>dedupNumber\<close>, \<open>requestType\<close>, \<open>replyType\<close>, \<open>comment\<close>,
  \<open>extra\<close>.
\<close>

record RouteGroup =
  optionsKey :: string
  serviceType :: string
  serviceName :: string
  methods :: "MethodDesc list"
  methodSet :: "string \<rightharpoonup> MethodDesc"
  packageInfo :: PackageDesc

text \<open>
  Modelled from the spec: the Annotation Extractor (section 4.1). No annotation is no
  match; an annotation with an empty key is no match either; otherwise the key and the
  extra list in declaration order. (The specification's name \<open>extract\<close> is a keyword
  of Isabelle.)
\<close>

definition extract_annotation :: "MethodDef \<Rightarrow> (string \<times> (string \<times> string) list) option" where
  "extract_annotation m =
     (case method_annotation m of
        None \<Rightarrow> None
      | Some a \<Rightarrow> if ann_key a = [] then None else Some (ann_key a, ann_extra a))"

text \<open>
  Modelled from the spec: the Name Disambiguator (section 4.2), one counter map keyed by
  candidate name. A name never requested has no entry and receives 0; the map then holds
  the number the next request for that name receives.
\<close>

type_synonym counters = "string \<rightharpoonup> int"

definition assign :: "counters \<Rightarrow> string \<Rightarrow> (string \<times> int) \<times> counters" where
  "assign c candidateName =
     (let n = (case c candidateName of None \<Rightarrow> 0 | Some k \<Rightarrow> k)
      in ((candidateName, n), c(candidateName \<mapsto> n + 1)))"

text \<open>The requests of one generation run, in order, against one counter map.\<close>

fun assign_all :: "counters \<Rightarrow> string list \<Rightarrow> (string \<times> int) list" where
  "assign_all c [] = []"
| "assign_all c (n # ns) = (case assign c n of (r, c') \<Rightarrow> r # assign_all c' ns)"

text \<open>
  Modelled from the spec: the \<open>extra\<close> mapping of a method, folded from the extra list.
  The specification leaves open which value a duplicated key keeps; here the last one
  does.
\<close>

definition fold_extra :: "(string \<times> string) list \<Rightarrow> (string \<rightharpoonup> string)" where
  "fold_extra kvs = foldl (\<lambda>acc kv. acc(fst kv \<mapsto> snd kv)) Map.empty kvs"

definition make_method :: "MethodDef \<Rightarrow> string \<Rightarrow> int \<Rightarrow> (string \<times> string) list \<Rightarrow> MethodDesc" where
  "make_method m orig n kvs =
     \<lparr>Name = method_name m, OriginalName = orig, Num = n,
      Request = type_name (method_input m), Reply = type_name (method_output m),
      Comment = method_comment m, Extra = fold_extra kvs\<rparr>"

text \<open>
  Modelled from the spec: steps 1 to 3 of the Model Builder (section 4.3) for the methods
  of one service, in declaration order. The candidate name is the service identifier
  followed by the method name.
\<close>

fun build_methods :: "string \<Rightarrow> string \<Rightarrow> MethodDef list \<Rightarrow> counters \<Rightarrow> MethodDesc list \<times> counters" where
  "build_methods routingKey svc [] c = ([], c)"
| "build_methods routingKey svc (m # ms) c =
     (case extract_annotation m of
        None \<Rightarrow> build_methods routingKey svc ms c
      | Some (k, kvs) \<Rightarrow>
          if k \<noteq> routingKey then build_methods routingKey svc ms c
          else
            (case assign c (svc @ method_name m) of
               ((orig, n), c') \<Rightarrow>
                 (case build_methods routingKey svc ms c' of
                    (rest, c'') \<Rightarrow> (make_method m orig n kvs # rest, c''))))"

text \<open>Modelled from the spec: step 5, the index of a group's methods by name.\<close>

definition method_index :: "MethodDesc list \<Rightarrow> (string \<rightharpoonup> MethodDesc)" where
  "method_index mds = foldl (\<lambda>acc md. acc(Name md \<mapsto> md)) Map.empty mds"

text \<open>
  Modelled from the spec: steps 4 to 6 for the services of one file and for the files of
  the descriptor set. A service with no matched method produces no group.
\<close>

fun build_services :: "string \<Rightarrow> PackageDesc \<Rightarrow> ServiceDef list \<Rightarrow> counters \<Rightarrow> RouteGroup list \<times> counters" where
  "build_services routingKey pkg [] c = ([], c)"
| "build_services routingKey pkg (svc # svcs) c =
     (case build_methods routingKey (service_name svc) (service_methods svc) c of
        (mds, c') \<Rightarrow>
          (case build_services routingKey pkg svcs c' of
             (groups, c'') \<Rightarrow>
               if mds = [] then (groups, c'')
               else
                 (\<lparr>optionsKey = routingKey, serviceType = service_name svc,
                   serviceName = service_full_name svc, methods = mds,
                   methodSet = method_index mds, packageInfo = pkg\<rparr> # groups, c'')))"

fun build_files :: "string \<Rightarrow> PackageDesc \<Rightarrow> FileDef list \<Rightarrow> counters \<Rightarrow> RouteGroup list \<times> counters" where
  "build_files routingKey pkg [] c = ([], c)"
| "build_files routingKey pkg (f # fs) c =
     (case build_services routingKey pkg (file_services f) c of
        (groups, c') \<Rightarrow>
          (case build_files routingKey pkg fs c' of
             (more_groups, c'') \<Rightarrow> (groups @ more_groups, c'')))"

text \<open>
  Modelled from the spec: the failure of the Model Builder. An unresolved type reference
  anywhere in the descriptor set aborts the run before any model is produced.
\<close>

datatype build_error = UnresolvedTypeReference

definition types_resolved :: "DescriptorSet \<Rightarrow> bool" where
  "types_resolved ds =
     list_all (\<lambda>f. list_all (\<lambda>svc. list_all (\<lambda>m. is_resolved (method_input m) \<and>
        is_resolved (method_output m)) (service_methods svc)) (file_services f)) ds"

text \<open>
  Modelled from the spec: \<open>build(descriptorSet, routingKey, packageConfig)\<close>. The counter
  map is scoped to the pass and starts empty.
\<close>

definition build :: "DescriptorSet \<Rightarrow> string \<Rightarrow> PackageDesc \<Rightarrow> build_error + RouteGroup list" where
  "build ds routingKey pkg =
     (if types_resolved ds then Inr (fst (build_files routingKey pkg ds Map.empty))
      else Inl UnresolvedTypeReference)"

text \<open>
  The methods a pass for \<open>routingKey\<close> is to group, stated on the annotation itself: the
  block is present, its key is not empty and equals the routing key.
\<close>

definition annotated_with :: "string \<Rightarrow> MethodDef \<Rightarrow> bool" where
  "annotated_with routingKey m =
     (case method_annotation m of
        None \<Rightarrow> False
      | Some a \<Rightarrow> ann_key a \<noteq> [] \<and> ann_key a = routingKey)"

definition all_services :: "DescriptorSet \<Rightarrow> ServiceDef list" where
  "all_services ds = concat (map file_services ds)"

section \<open>Concrete inputs\<close>

text \<open>
  The service of the repository's README: \<open>UpdateCount\<close> at address 0 and
  \<open>ProcessMenu\<close> at address 1. Every other address holds a second method that is also
  named \<open>UpdateCount\<close>.
\<close>

definition update_count :: MethodDesc where
  "update_count =
     \<lparr>Name = ''UpdateCount'', OriginalName = ''MenuServiceUpdateCount'', Num = 0,
      Request = ''UpdateCountRequest'', Reply = ''UpdateCountResponse'',
      Comment = ''test comment'',
      Extra = [''command'' \<mapsto> ''start'', ''callback_query'' \<mapsto> ''start'']\<rparr>"

definition process_menu :: MethodDesc where
  "process_menu =
     \<lparr>Name = ''ProcessMenu'', OriginalName = ''MenuServiceProcessMenu'', Num = 0,
      Request = ''ProcessMenuRequest'', Reply = ''ProcessMenuResponse'',
      Comment = [], Extra = [''callback_query'' \<mapsto> ''menu_.*'']\<rparr>"

definition update_count_again :: MethodDesc where
  "update_count_again = update_count\<lparr>Num := 1\<rparr>"

definition telegram :: PackageDesc where
  "telegram =
     \<lparr>RequestType = ''Update'', ResponseType = ''Message'',
      ExtraDataType = ''MethodExtraData'', NewExtraDataFunc = ''NewMethodExtraData''\<rparr>"

definition menu_store :: store where
  "menu_store =
     \<lparr>method_at = (\<lambda>a. if a = 0 then update_count
                        else if a = 1 then process_menu else update_count_again),
      package_at = (\<lambda>a. telegram)\<rparr>"

definition menu_service :: ServiceDesc where
  "menu_service =
     \<lparr>OptionsKey = ''bot'', ServiceType = ''MenuService'',
      ServiceName = ''bot.v1.MenuService'', Methods = [Ref 0, Ref 1],
      MethodSets = Map.empty, Package = Ref 0\<rparr>"

definition twice_service :: ServiceDesc where
  "twice_service = menu_service\<lparr>Methods := [Ref 0, Ref 2]\<rparr>"

text \<open>
  A stand-in for the template engine, used only to evaluate the theorems at a concrete
  input: a body that opens an action without closing it does not parse; a body that
  names a field the service does not have fails during substitution after writing a
  first line; any other body is written out as it is.
\<close>

definition toy_parse :: "string \<Rightarrow> error + string" where
  "toy_parse body =
     (if body = ''{{'' then Inl (Error ''unclosed action'') else Inr body)"

definition toy_exec :: "string \<Rightarrow> store \<Rightarrow> ServiceDesc \<Rightarrow> string \<times> error option" where
  "toy_exec tmpl h s =
     (if tmpl = ''{{.Nope}}'' then (''// route'', Some (Error ''no field Nope''))
      else (tmpl, None))"

text \<open>A file system with one file.\<close>

definition one_file :: "string \<Rightarrow> error + string" where
  "one_file path =
     (if path = ''route.tmpl'' then Inr ''custom body''
      else Inl (Error ''no such file''))"

text \<open>
  A descriptor set: the \<open>MenuService\<close> of the README with three more methods (one
  without annotation, one with an empty key, one for another transport), and a service
  that has no method for \<open>bot\<close>.
\<close>

definition rpc :: "string \<Rightarrow> Annotation option \<Rightarrow> MethodDef" where
  "rpc n a =
     \<lparr>method_name = n, method_input = Resolved (n @ ''Request''),
      method_output = Resolved (n @ ''Response''), method_comment = [],
      method_annotation = a\<rparr>"

definition menu_file :: FileDef where
  "menu_file =
     \<lparr>file_name = ''bot/v1/menu.proto'',
      file_services =
        [\<lparr>service_name = ''MenuService'', service_full_name = ''bot.v1.MenuService'',
          service_methods =
            [rpc ''UpdateCount'' (Some \<lparr>ann_key = ''bot'',
               ann_extra = [(''command'', ''start''), (''callback_query'', ''start'')]\<rparr>),
             rpc ''Ping'' None,
             rpc ''Hidden'' (Some \<lparr>ann_key = [], ann_extra = []\<rparr>),
             rpc ''GetMenu'' (Some \<lparr>ann_key = ''http'', ann_extra = []\<rparr>),
             rpc ''ProcessMenu'' (Some \<lparr>ann_key = ''bot'',
               ann_extra = [(''callback_query'', ''menu_.*'')]\<rparr>)]\<rparr>,
         \<lparr>service_name = ''AdminService'', service_full_name = ''bot.v1.AdminService'',
          service_methods =
            [rpc ''Reload'' (Some \<lparr>ann_key = ''http'', ann_extra = []\<rparr>),
             rpc ''Status'' None]\<rparr>]\<rparr>"

section \<open>The loop of \<^verbatim>\<open>Execute\<close> builds the index by name\<close>

lemma name_of_None: "name_of h m = None \<longleftrightarrow> m = Null"
  by (cases m) simp_all

lemma index_methods_finished:
  "Null \<notin> set ms \<Longrightarrow> fst (index_methods h ms acc) = True"
proof (induction ms arbitrary: acc)
  case Nil
  show ?case by simp
next
  case (Cons m rest)
  then obtain a where "m = Ref a" by (cases m) auto
  with Cons show ?case by simp
qed

lemma index_methods_panics:
  "Null \<in> set ms \<Longrightarrow> fst (index_methods h ms acc) = False"
proof (induction ms arbitrary: acc)
  case Nil
  then show ?case by simp
next
  case (Cons m rest)
  then show ?case by (cases m) auto
qed

lemma name_index_Nil: "name_index h [] = Map.empty"
  by (simp add: name_index_def)

lemma name_index_Cons:
  "name_of h m = Some n \<Longrightarrow> [n \<mapsto> m] ++ name_index h rest = name_index h (m # rest)"
  by (rule ext) (simp add: name_index_def map_add_def Let_def)

lemma index_methods_map:
  "Null \<notin> set ms \<Longrightarrow> snd (index_methods h ms acc) = acc ++ name_index h ms"
proof (induction ms arbitrary: acc)
  case Nil
  show ?case by (simp add: name_index_Nil)
next
  case (Cons m rest)
  then obtain a where m: "m = Ref a" by (cases m) auto
  let ?n = "Name (method_at h a)"
  have "snd (index_methods h (m # rest) acc) = acc(?n \<mapsto> m) ++ name_index h rest"
    using Cons m by simp
  also have "\<dots> = acc ++ ([?n \<mapsto> m] ++ name_index h rest)"
    by (rule ext) (simp add: map_add_def split: option.splits)
  also have "\<dots> = acc ++ name_index h (m # rest)"
    using name_index_Cons [of h m ?n rest] m by simp
  finally show ?case .
qed

lemma dom_name_index:
  "dom (name_index h ms) = {n. Some n \<in> name_of h ` set ms}"
proof (rule set_eqI)
  fix n
  have "n \<in> dom (name_index h ms) \<longleftrightarrow> (\<exists>m \<in> set ms. name_of h m = Some n)"
    by (simp add: name_index_def Let_def dom_def filter_empty_conv)
  also have "\<dots> \<longleftrightarrow> Some n \<in> name_of h ` set ms"
    by force
  finally show "n \<in> dom (name_index h ms) \<longleftrightarrow> n \<in> {n. Some n \<in> name_of h ` set ms}"
    by simp
qed


lemma name_index_distinct:
  assumes "distinct (map (name_of h) ms)" and "m \<in> set ms" and "name_of h m = Some n"
  shows "name_index h ms n = Some m"
proof -
  have "filter (\<lambda>m'. name_of h m' = Some n) ms = [m]"
    using assms
  proof (induction ms)
    case Nil
    then show ?case by simp
  next
    case (Cons x xs)
    show ?case
    proof (cases "x = m")
      case True
      have "\<forall>y \<in> set xs. name_of h y \<noteq> Some n"
      proof
        fix y assume "y \<in> set xs"
        then have "name_of h y \<in> name_of h ` set xs" by simp
        moreover have "name_of h x \<notin> name_of h ` set xs" using Cons.prems(1) by simp
        ultimately show "name_of h y \<noteq> Some n" using True Cons.prems(3) by metis
      qed
      then have "filter (\<lambda>m'. name_of h m' = Some n) xs = []"
        by (simp add: filter_empty_conv)
      with True Cons.prems show ?thesis by simp
    next
      case False
      with Cons.prems have "m \<in> set xs" by simp
      moreover have "name_of h x \<noteq> Some n"
        using Cons.prems \<open>m \<in> set xs\<close> by force
      ultimately show ?thesis using Cons by simp
    qed
  qed
  then show ?thesis by (simp add: name_index_def Let_def)
qed

lemma card_dom_name_index:
  assumes "Null \<notin> set ms"
  shows "card (dom (name_index h ms)) = card (name_of h ` set ms)"
proof -
  have none: "None \<notin> name_of h ` set ms"
  proof
    assume "None \<in> name_of h ` set ms"
    then obtain m where "m \<in> set ms" "name_of h m = None" by force
    then show False using assms by (simp add: name_of_None)
  qed
  have "Some ` dom (name_index h ms) = name_of h ` set ms"
  proof (rule set_eqI)
    fix x show "x \<in> Some ` dom (name_index h ms) \<longleftrightarrow> x \<in> name_of h ` set ms"
      using none by (cases x) (auto simp: dom_name_index)
  qed
  then have "card (name_of h ` set ms) = card (Some ` dom (name_index h ms))" by simp
  also have "\<dots> = card (dom (name_index h ms))"
    by (rule card_image) simp
  finally show ?thesis by simp
qed

lemma Execute_receiver:
  "snd (Execute Parse Exec h t s) = s\<lparr>MethodSets := snd (index_methods h (Methods s) Map.empty)\<rparr>"
  by (simp add: Execute_def Let_def split: prod.splits sum.splits option.splits)

lemma Execute_panics:
  "Null \<in> set (Methods s) \<Longrightarrow> fst (Execute Parse Exec h t s) = Panic"
proof -
  assume "Null \<in> set (Methods s)"
  then have "fst (index_methods h (Methods s) Map.empty) = False"
    by (rule index_methods_panics)
  then obtain ms where "index_methods h (Methods s) Map.empty = (False, ms)"
    by (cases "index_methods h (Methods s) Map.empty") simp
  then show ?thesis by (simp add: Execute_def Let_def)
qed

lemma Execute_MethodSets:
  "Null \<notin> set (Methods s) \<Longrightarrow>
   snd (Execute Parse Exec h t s) = s\<lparr>MethodSets := name_index h (Methods s)\<rparr>"
  by (simp add: Execute_receiver index_methods_map)

lemma Execute_outcome:
  assumes "Null \<notin> set (Methods s)"
  shows "fst (Execute Parse Exec h t s) =
     (case Parse t of
        Inl err \<Rightarrow> Return [] (Some err)
      | Inr tmpl \<Rightarrow>
          (case Exec tmpl h (s\<lparr>MethodSets := name_index h (Methods s)\<rparr>) of
             (buf, Some err) \<Rightarrow> Return [] (Some err)
           | (buf, None) \<Rightarrow> Return buf None))"
proof -
  obtain fin ms where im: "index_methods h (Methods s) Map.empty = (fin, ms)"
    by (cases "index_methods h (Methods s) Map.empty")
  have "fin" using index_methods_finished [OF assms, of h Map.empty] im by simp
  moreover have "ms = name_index h (Methods s)"
    using index_methods_map [OF assms, of h Map.empty] im by simp
  ultimately show ?thesis
    by (simp add: Execute_def im Let_def split: sum.splits prod.splits option.splits)
qed


section \<open>Claims about \<^verbatim>\<open>Execute\<close> and \<^verbatim>\<open>ReplaceTemplateIfNeed\<close>\<close>

text \<open>
  C1, as stated, fails. The claim: after \<^verbatim>\<open>Execute\<close> on any ServiceDesc,
  \<^verbatim>\<open>MethodSets[m.Name] == m\<close> for every \<open>m\<close> in \<^verbatim>\<open>Methods\<close> and
  \<^verbatim>\<open>len(MethodSets) == len(Methods)\<close>, also when two entries have the same name. On
  the service whose two methods are both named \<open>UpdateCount\<close> the first method is not
  the one the index holds under its name, and the index has one entry for two methods.
\<close>

theorem Execute_index_duplicate_names_counterexample:
  "Ref 0 \<in> set (Methods twice_service) \<and>
   MethodSets (snd (Execute toy_parse toy_exec menu_store ''route'' twice_service))
     (Name (method_at menu_store 0)) \<noteq> Some (Ref 0) \<and>
   card (dom (MethodSets (snd (Execute toy_parse toy_exec menu_store ''route'' twice_service))))
     \<noteq> length (Methods twice_service)"
  by (simp add: Execute_receiver twice_service_def menu_service_def menu_store_def
      update_count_def update_count_again_def process_menu_def)

text \<open>
  C1, amended: when \<^verbatim>\<open>Methods\<close> holds no nil pointer and no two of its entries have
  the same \<^verbatim>\<open>Name\<close>, then after \<^verbatim>\<open>Execute\<close> (whatever it returns) every method
  \<open>m\<close> of \<^verbatim>\<open>Methods\<close> satisfies \<^verbatim>\<open>MethodSets[m.Name] == m\<close>, as pointers, and
  \<^verbatim>\<open>MethodSets\<close> has as many entries as \<^verbatim>\<open>Methods\<close>.
\<close>

theorem Execute_index_distinct_names:
  assumes "Null \<notin> set (Methods s)" and "distinct (map (name_of h) (Methods s))"
  shows "(\<forall>a. Ref a \<in> set (Methods s) \<longrightarrow>
            MethodSets (snd (Execute Parse Exec h t s)) (Name (method_at h a)) = Some (Ref a)) \<and>
         card (dom (MethodSets (snd (Execute Parse Exec h t s)))) = length (Methods s)"
proof -
  have ms: "MethodSets (snd (Execute Parse Exec h t s)) = name_index h (Methods s)"
    by (simp add: Execute_MethodSets assms(1))
  have "name_index h (Methods s) (Name (method_at h a)) = Some (Ref a)"
    if "Ref a \<in> set (Methods s)" for a
    using name_index_distinct [OF assms(2) that] by simp
  moreover have "card (dom (name_index h (Methods s))) = length (Methods s)"
    using card_dom_name_index [OF assms(1), of h] distinct_card [OF assms(2)]
    by simp
  ultimately show ?thesis by (simp add: ms)
qed

theorem Execute_index_distinct_names_witness:
  "Null \<notin> set (Methods menu_service) \<and>
   distinct (map (name_of menu_store) (Methods menu_service)) \<and>
   MethodSets (snd (Execute toy_parse toy_exec menu_store ''route'' menu_service)) ''UpdateCount''
     = Some (Ref 0) \<and>
   MethodSets (snd (Execute toy_parse toy_exec menu_store ''route'' menu_service)) ''ProcessMenu''
     = Some (Ref 1) \<and>
   card (dom (MethodSets (snd (Execute toy_parse toy_exec menu_store ''route'' menu_service)))) = 2"
  using Execute_index_distinct_names [of menu_service menu_store toy_parse toy_exec "''route''"]
  by (simp add: menu_service_def menu_store_def update_count_def process_menu_def)

text \<open>
  C2, as stated, fails. The claim: every field of the service, \<^verbatim>\<open>MethodSets\<close>
  included, has the same value after \<^verbatim>\<open>Execute\<close> as before. On the README's service
  with an empty \<^verbatim>\<open>MethodSets\<close>, the name \<open>UpdateCount\<close> is unbound before the call
  and bound after it.
\<close>

theorem Execute_replaces_MethodSets_counterexample:
  "MethodSets menu_service ''UpdateCount'' = None \<and>
   MethodSets (snd (Execute toy_parse toy_exec menu_store ''route'' menu_service)) ''UpdateCount''
     = Some (Ref 0)"
  by (simp add: Execute_receiver menu_service_def menu_store_def update_count_def
      process_menu_def)

text \<open>
  C2, amended: every field of the service other than \<^verbatim>\<open>MethodSets\<close>, that is
  \<^verbatim>\<open>OptionsKey\<close>, \<^verbatim>\<open>ServiceType\<close>, \<^verbatim>\<open>ServiceName\<close>, \<^verbatim>\<open>Methods\<close> and
  \<^verbatim>\<open>Package\<close>, has the same value after \<^verbatim>\<open>Execute\<close> as before, whether the call
  succeeds or fails.
\<close>

theorem Execute_frame:
  "OptionsKey (snd (Execute Parse Exec h t s)) = OptionsKey s \<and>
   ServiceType (snd (Execute Parse Exec h t s)) = ServiceType s \<and>
   ServiceName (snd (Execute Parse Exec h t s)) = ServiceName s \<and>
   Methods (snd (Execute Parse Exec h t s)) = Methods s \<and>
   Package (snd (Execute Parse Exec h t s)) = Package s"
  by (simp add: Execute_receiver)



text \<open>
  C4: with the empty path \<^verbatim>\<open>ReplaceTemplateIfNeed\<close> returns nil and the template body
  stays as it is; with another path the body becomes the contents of the file when the
  read succeeds, and when the read fails that error is returned and the body stays as it
  is.
\<close>

theorem ReplaceTemplateIfNeed_cases:
  "ReplaceTemplateIfNeed ReadFile [] body = (None, body) \<and>
   (path \<noteq> [] \<longrightarrow>
      (\<forall>raw. ReadFile path = Inr raw \<longrightarrow>
         ReplaceTemplateIfNeed ReadFile path body = (None, raw)) \<and>
      (\<forall>err. ReadFile path = Inl err \<longrightarrow>
         ReplaceTemplateIfNeed ReadFile path body = (Some err, body)))"
  by (simp add: ReplaceTemplateIfNeed_def)

text \<open>C4 on a file system with one file: a path that reads, one that does not, none.\<close>

theorem ReplaceTemplateIfNeed_cases_witness:
  "''route.tmpl'' \<noteq> [] \<and> one_file ''route.tmpl'' = Inr ''custom body'' \<and>
   ReplaceTemplateIfNeed one_file ''route.tmpl'' ''default body'' = (None, ''custom body'') \<and>
   ''other.tmpl'' \<noteq> [] \<and> one_file ''other.tmpl'' = Inl (Error ''no such file'') \<and>
   ReplaceTemplateIfNeed one_file ''other.tmpl'' ''default body''
     = (Some (Error ''no such file''), ''default body'') \<and>
   ReplaceTemplateIfNeed one_file [] ''default body'' = (None, ''default body'')"
  using ReplaceTemplateIfNeed_cases [of one_file "''default body''" "''route.tmpl''"]
    ReplaceTemplateIfNeed_cases [of one_file "''default body''" "''other.tmpl''"]
  by (simp add: one_file_def)





lemma Execute_returns_no_nil:
  "fst (Execute Parse Exec h t s) = Return txt err \<Longrightarrow> Null \<notin> set (Methods s)"
  using Execute_panics [of s Parse Exec h t] by auto

text \<open>
  C10: when \<^verbatim>\<open>Execute\<close> returns an error, the receiver's \<^verbatim>\<open>MethodSets\<close> is the
  index of its methods by name all the same, whatever it was before the call: every
  method's name is bound in it.
\<close>

theorem Execute_index_kept_on_error:
  assumes "fst (Execute Parse Exec h t s) = Return txt (Some e)"
  shows "MethodSets (snd (Execute Parse Exec h t s)) = name_index h (Methods s) \<and>
         (\<forall>a. Ref a \<in> set (Methods s) \<longrightarrow>
            MethodSets (snd (Execute Parse Exec h t s)) (Name (method_at h a)) \<noteq> None)"
proof -
  have nn: "Null \<notin> set (Methods s)"
    using assms by (rule Execute_returns_no_nil)
  then have ms: "MethodSets (snd (Execute Parse Exec h t s)) = name_index h (Methods s)"
    by (simp add: Execute_MethodSets)
  have "name_index h (Methods s) (Name (method_at h a)) \<noteq> None" if "Ref a \<in> set (Methods s)" for a
  proof -
    have "name_of h (Ref a) = Some (Name (method_at h a))" by simp
    with that have "Some (Name (method_at h a)) \<in> name_of h ` set (Methods s)" by force
    then have "Name (method_at h a) \<in> dom (name_index h (Methods s))"
      by (simp add: dom_name_index)
    then show ?thesis by auto
  qed
  with ms show ?thesis by simp
qed

text \<open>
  C10 on a body that does not parse: the call returns the parse error, and the index
  that was empty before the call now holds \<open>ProcessMenu\<close>.
\<close>

theorem Execute_index_kept_on_error_witness:
  "fst (Execute toy_parse toy_exec menu_store ''{{'' menu_service)
     = Return [] (Some (Error ''unclosed action'')) \<and>
   MethodSets menu_service ''ProcessMenu'' = None \<and>
   MethodSets (snd (Execute toy_parse toy_exec menu_store ''{{'' menu_service)) ''ProcessMenu''
     = Some (Ref 1)"
proof -
  have r: "fst (Execute toy_parse toy_exec menu_store ''{{'' menu_service)
     = Return [] (Some (Error ''unclosed action''))"
    by (simp add: Execute_outcome menu_service_def toy_parse_def)
  show ?thesis
    using r Execute_index_kept_on_error [OF r]
    by (simp add: name_index_def menu_service_def menu_store_def update_count_def
        process_menu_def)
qed

section \<open>Claims about the Name Disambiguator\<close>

lemma assign_all_nth:
  "i < length reqs \<Longrightarrow>
   assign_all c reqs ! i =
     (reqs ! i, (case c (reqs ! i) of None \<Rightarrow> 0 | Some k \<Rightarrow> k) +
        int (length (filter (\<lambda>r. r = reqs ! i) (take i reqs))))"
proof (induction reqs arbitrary: c i)
  case Nil
  then show ?case by simp
next
  case (Cons n ns)
  show ?case
  proof (cases i)
    case 0
    then show ?thesis by (simp add: assign_def Let_def)
  next
    case (Suc j)
    with Cons.prems have j: "j < length ns" by simp
    let ?b = "case c n of None \<Rightarrow> 0 | Some k \<Rightarrow> k"
    have "assign_all c (n # ns) ! i = assign_all (c(n \<mapsto> ?b + 1)) ns ! j"
      by (simp add: Suc assign_def Let_def)
    also have "\<dots> = (ns ! j, (case (c(n \<mapsto> ?b + 1)) (ns ! j) of None \<Rightarrow> 0 | Some k \<Rightarrow> k) +
        int (length (filter (\<lambda>r. r = ns ! j) (take j ns))))"
      by (rule Cons.IH [OF j])
    also have "\<dots> = ((n # ns) ! i, (case c ((n # ns) ! i) of None \<Rightarrow> 0 | Some k \<Rightarrow> k) +
        int (length (filter (\<lambda>r. r = (n # ns) ! i) (take i (n # ns)))))"
      by (simp add: Suc)
    finally show ?thesis .
  qed
qed

text \<open>
  C6: in a run that starts from the empty counter map, each request receives its own
  candidate name back together with the number of earlier requests for that same name:
  0 for the first request for a name, 1 for the second, 2 for the third, whatever
  requests for other names come in between.
\<close>

theorem assign_all_numbers:
  assumes "i < length reqs"
  shows "assign_all Map.empty reqs ! i =
           (reqs ! i, int (length (filter (\<lambda>r. r = reqs ! i) (take i reqs))))"
  using assign_all_nth [OF assms, of Map.empty] by simp

text \<open>C6 on four requests, three of them for one name.\<close>

theorem assign_all_numbers_witness:
  "(3::nat) < length [''MenuServiceUpdateCount'', ''MenuServiceProcessMenu'',
                      ''MenuServiceUpdateCount'', ''MenuServiceUpdateCount''] \<and>
   assign_all Map.empty [''MenuServiceUpdateCount'', ''MenuServiceProcessMenu'',
                         ''MenuServiceUpdateCount'', ''MenuServiceUpdateCount'']
     = [(''MenuServiceUpdateCount'', 0), (''MenuServiceProcessMenu'', 0),
        (''MenuServiceUpdateCount'', 1), (''MenuServiceUpdateCount'', 2)]"
  using assign_all_numbers [of 3 "[''MenuServiceUpdateCount'', ''MenuServiceProcessMenu'',
                       ''MenuServiceUpdateCount'', ''MenuServiceUpdateCount'']"]
  by (simp add: assign_def Let_def)

section \<open>Claims about the Model Builder\<close>

lemma annotated_with_iff:
  "annotated_with k m \<longleftrightarrow> (\<exists>a. method_annotation m = Some a \<and> ann_key a \<noteq> [] \<and> ann_key a = k)"
  by (simp add: annotated_with_def split: option.splits)

lemma extract_annotation_match:
  "annotated_with k m \<longleftrightarrow> (\<exists>kvs. extract_annotation m = Some (k, kvs))"
  by (auto simp: annotated_with_def extract_annotation_def split: option.splits)

lemma build_methods_view:
  "map (\<lambda>d. (Name d, Request d, Reply d, Comment d)) (fst (build_methods k svc ms c)) =
   map (\<lambda>m. (method_name m, type_name (method_input m), type_name (method_output m),
              method_comment m)) (filter (annotated_with k) ms)"
proof (induction ms arbitrary: c)
  case Nil
  show ?case by simp
next
  case (Cons m ms)
  show ?case
  proof (cases "annotated_with k m")
    case True
    then obtain kvs where ex: "extract_annotation m = Some (k, kvs)"
      by (auto simp: extract_annotation_match)
    obtain orig n c' where as: "assign c (svc @ method_name m) = ((orig, n), c')"
      by (cases "assign c (svc @ method_name m)") auto
    obtain rest c'' where bm: "build_methods k svc ms c' = (rest, c'')"
      by (cases "build_methods k svc ms c'")
    have "fst (build_methods k svc (m # ms) c) = make_method m orig n kvs # rest"
      by (simp add: ex as bm)
    moreover have "map (\<lambda>d. (Name d, Request d, Reply d, Comment d)) rest =
        map (\<lambda>m. (method_name m, type_name (method_input m), type_name (method_output m),
              method_comment m)) (filter (annotated_with k) ms)"
      using Cons [of c'] bm by simp
    ultimately show ?thesis using True by (simp add: make_method_def)
  next
    case False
    then have "extract_annotation m = None \<or> (\<exists>k' kvs. extract_annotation m = Some (k', kvs) \<and> k' \<noteq> k)"
      by (cases "extract_annotation m") (auto simp: extract_annotation_match)
    with False Cons show ?thesis by auto
  qed
qed

lemma build_methods_Nil_iff:
  "fst (build_methods k svc ms c) = [] \<longleftrightarrow> filter (annotated_with k) ms = []"
proof -
  have "length (fst (build_methods k svc ms c)) = length (filter (annotated_with k) ms)"
    using arg_cong [OF build_methods_view [of k svc ms c], of length] by simp
  then show ?thesis by (metis length_0_conv)
qed

lemma build_methods_origin:
  assumes "d \<in> set (fst (build_methods k svc ms c))"
  shows "\<exists>m \<in> set ms. annotated_with k m \<and> Name d = method_name m \<and>
           Request d = type_name (method_input m) \<and> Reply d = type_name (method_output m) \<and>
           Comment d = method_comment m"
proof -
  let ?v = "\<lambda>d. (Name d, Request d, Reply d, Comment d)"
  let ?w = "\<lambda>m. (method_name m, type_name (method_input m), type_name (method_output m),
              method_comment m)"
  have "?v d \<in> set (map ?v (fst (build_methods k svc ms c)))"
    using assms by simp
  then have "?v d \<in> set (map ?w (filter (annotated_with k) ms))"
    by (simp only: build_methods_view)
  then obtain m where "m \<in> set (filter (annotated_with k) ms)" "?v d = ?w m"
    by auto
  then show ?thesis by auto
qed

lemma build_services_view:
  "map (\<lambda>g. (serviceType g, serviceName g, map Name (methods g)))
     (fst (build_services k pkg svcs c)) =
   map (\<lambda>svc. (service_name svc, service_full_name svc,
          map method_name (filter (annotated_with k) (service_methods svc))))
     (filter (\<lambda>svc. filter (annotated_with k) (service_methods svc) \<noteq> []) svcs)"
proof (induction svcs arbitrary: c)
  case Nil
  show ?case by simp
next
  case (Cons svc svcs)
  obtain mds c' where bm: "build_methods k (service_name svc) (service_methods svc) c = (mds, c')"
    by (cases "build_methods k (service_name svc) (service_methods svc) c")
  obtain gs c'' where bs: "build_services k pkg svcs c' = (gs, c'')"
    by (cases "build_services k pkg svcs c'")
  have names: "map Name mds = map method_name (filter (annotated_with k) (service_methods svc))"
    using arg_cong [OF build_methods_view [of k "service_name svc" "service_methods svc" c],
        of "map fst"] bm by (simp add: comp_def)
  have empty: "mds = [] \<longleftrightarrow> filter (annotated_with k) (service_methods svc) = []"
    using build_methods_Nil_iff [of k "service_name svc" "service_methods svc" c] bm by simp
  have ih: "map (\<lambda>g. (serviceType g, serviceName g, map Name (methods g))) gs =
     map (\<lambda>svc. (service_name svc, service_full_name svc,
          map method_name (filter (annotated_with k) (service_methods svc))))
     (filter (\<lambda>svc. filter (annotated_with k) (service_methods svc) \<noteq> []) svcs)"
    using Cons.IH [of c'] bs by simp
  show ?case
  proof (cases "mds = []")
    case True
    with empty ih show ?thesis by (simp add: bm bs)
  next
    case False
    with empty ih names show ?thesis by (simp add: bm bs)
  qed
qed

lemma build_services_groups:
  assumes "g \<in> set (fst (build_services k pkg svcs c))"
  shows "optionsKey g = k \<and> methods g \<noteq> [] \<and> packageInfo g = pkg \<and>
         methodSet g = method_index (methods g) \<and>
         (\<exists>svc \<in> set svcs. \<exists>c0. serviceType g = service_name svc \<and>
            serviceName g = service_full_name svc \<and>
            methods g = fst (build_methods k (service_name svc) (service_methods svc) c0))"
  using assms
proof (induction svcs arbitrary: c)
  case Nil
  then show ?case by simp
next
  case (Cons svc svcs)
  obtain mds c' where bm: "build_methods k (service_name svc) (service_methods svc) c = (mds, c')"
    by (cases "build_methods k (service_name svc) (service_methods svc) c")
  obtain gs c'' where bs: "build_services k pkg svcs c' = (gs, c'')"
    by (cases "build_services k pkg svcs c'")
  let ?g = "\<lparr>optionsKey = k, serviceType = service_name svc,
              serviceName = service_full_name svc, methods = mds,
              methodSet = method_index mds, packageInfo = pkg\<rparr>"
  from Cons.prems have "g \<in> set gs \<or> (mds \<noteq> [] \<and> g = ?g)"
    by (auto simp: bm bs split: if_splits)
  then show ?case
  proof
    assume "g \<in> set gs"
    then have "g \<in> set (fst (build_services k pkg svcs c'))" by (simp add: bs)
    from Cons.IH [OF this] show ?thesis by auto
  next
    assume new: "mds \<noteq> [] \<and> g = ?g"
    have "mds = fst (build_methods k (service_name svc) (service_methods svc) c)"
      by (simp add: bm)
    with new show ?thesis by auto
  qed
qed

lemma build_files_view:
  "map (\<lambda>g. (serviceType g, serviceName g, map Name (methods g)))
     (fst (build_files k pkg fs c)) =
   map (\<lambda>svc. (service_name svc, service_full_name svc,
          map method_name (filter (annotated_with k) (service_methods svc))))
     (filter (\<lambda>svc. filter (annotated_with k) (service_methods svc) \<noteq> []) (all_services fs))"
proof (induction fs arbitrary: c)
  case Nil
  show ?case by (simp add: all_services_def)
next
  case (Cons f fs)
  obtain gs c' where bs: "build_services k pkg (file_services f) c = (gs, c')"
    by (cases "build_services k pkg (file_services f) c")
  obtain gs' c'' where bf: "build_files k pkg fs c' = (gs', c'')"
    by (cases "build_files k pkg fs c'")
  show ?case
    using build_services_view [of k pkg "file_services f" c] Cons.IH [of c']
    by (simp add: bs bf all_services_def)
qed

lemma build_files_groups:
  assumes "g \<in> set (fst (build_files k pkg fs c))"
  shows "optionsKey g = k \<and> methods g \<noteq> [] \<and> packageInfo g = pkg \<and>
         methodSet g = method_index (methods g) \<and>
         (\<exists>svc \<in> set (all_services fs). \<exists>c0. serviceType g = service_name svc \<and>
            serviceName g = service_full_name svc \<and>
            methods g = fst (build_methods k (service_name svc) (service_methods svc) c0))"
  using assms
proof (induction fs arbitrary: c)
  case Nil
  then show ?case by simp
next
  case (Cons f fs)
  obtain gs c' where bs: "build_services k pkg (file_services f) c = (gs, c')"
    by (cases "build_services k pkg (file_services f) c")
  obtain gs' c'' where bf: "build_files k pkg fs c' = (gs', c'')"
    by (cases "build_files k pkg fs c'")
  from Cons.prems have "g \<in> set gs \<or> g \<in> set gs'" by (auto simp: bs bf)
  then show ?case
  proof
    assume "g \<in> set gs"
    then have "g \<in> set (fst (build_services k pkg (file_services f) c))" by (simp add: bs)
    from build_services_groups [OF this] show ?thesis
      by (simp add: all_services_def) blast
  next
    assume "g \<in> set gs'"
    then have "g \<in> set (fst (build_files k pkg fs c'))" by (simp add: bf)
    from Cons.IH [OF this] show ?thesis
      by (simp add: all_services_def) blast
  qed
qed

lemma build_resolved:
  "types_resolved ds \<Longrightarrow> build ds k pkg = Inr (fst (build_files k pkg ds Map.empty))"
  by (simp add: build_def)

lemma build_unresolved:
  "\<not> types_resolved ds \<Longrightarrow> build ds k pkg = Inl UnresolvedTypeReference"
  by (simp add: build_def)

lemma has_match_iff:
  "filter (annotated_with k) ms \<noteq> [] \<longleftrightarrow> (\<exists>m \<in> set ms. annotated_with k m)"
  by (simp add: filter_empty_conv)

lemma concat_nonempty_filter:
  "concat (map f (filter (\<lambda>x. g x \<noteq> []) xs)) = concat (map f xs)"
  if "\<And>x. g x = [] \<Longrightarrow> f x = []"
  using that by (induction xs) auto

lemma build_files_all_names:
  "concat (map (\<lambda>g. map Name (methods g)) (fst (build_files k pkg fs c))) =
   map method_name (filter (annotated_with k) (concat (map service_methods (all_services fs))))"
proof -
  let ?P = "annotated_with k"
  have "map (\<lambda>g. map Name (methods g)) (fst (build_files k pkg fs c)) =
      map (\<lambda>svc. map method_name (filter ?P (service_methods svc)))
        (filter (\<lambda>svc. filter ?P (service_methods svc) \<noteq> []) (all_services fs))"
    using arg_cong [OF build_files_view [of k pkg fs c], of "map (\<lambda>v. snd (snd v))"]
    by (simp add: comp_def)
  then have "concat (map (\<lambda>g. map Name (methods g)) (fst (build_files k pkg fs c))) =
      concat (map (\<lambda>svc. map method_name (filter ?P (service_methods svc)))
        (filter (\<lambda>svc. filter ?P (service_methods svc) \<noteq> []) (all_services fs)))"
    by simp
  also have "\<dots> = concat (map (\<lambda>svc. map method_name (filter ?P (service_methods svc)))
        (all_services fs))"
    by (rule concat_nonempty_filter) simp
  also have "\<dots> = map method_name (filter ?P (concat (map service_methods (all_services fs))))"
    by (simp add: map_concat filter_concat comp_def)
  finally show ?thesis .
qed

text \<open>
  C7: on a descriptor set whose type references resolve, \<open>build\<close> returns groups such
  that no group has the empty string as its \<open>optionsKey\<close>; every method of every group
  comes from a method of the descriptor set whose annotation block is present with a
  key that is not empty (and equals the routing key); and the names of all grouped
  methods, in order, are the names of exactly those methods of the descriptor set. A
  method without annotation block, or with an empty key, is therefore in no group, for
  any routing key.
\<close>

theorem build_excludes_unannotated:
  assumes "types_resolved ds"
  shows "\<exists>gs. build ds routingKey pkg = Inr gs \<and>
     (\<forall>g \<in> set gs. optionsKey g \<noteq> [] \<and>
        (\<forall>d \<in> set (methods g). \<exists>svc \<in> set (all_services ds). \<exists>m \<in> set (service_methods svc).
           serviceName g = service_full_name svc \<and> Name d = method_name m \<and>
           (\<exists>a. method_annotation m = Some a \<and> ann_key a \<noteq> [] \<and> ann_key a = routingKey))) \<and>
     concat (map (\<lambda>g. map Name (methods g)) gs) =
       map method_name
         (filter (\<lambda>m. \<exists>a. method_annotation m = Some a \<and> ann_key a \<noteq> [] \<and> ann_key a = routingKey)
            (concat (map service_methods (all_services ds))))"
proof -
  let ?gs = "fst (build_files routingKey pkg ds Map.empty)"
  have origin: "\<exists>svc \<in> set (all_services ds). \<exists>m \<in> set (service_methods svc).
           serviceName g = service_full_name svc \<and> Name d = method_name m \<and>
           (\<exists>a. method_annotation m = Some a \<and> ann_key a \<noteq> [] \<and> ann_key a = routingKey)"
    if g: "g \<in> set ?gs" and d: "d \<in> set (methods g)" for g d
  proof -
    from build_files_groups [OF g] obtain svc c0 where
      svc: "svc \<in> set (all_services ds)" "serviceName g = service_full_name svc"
        "methods g = fst (build_methods routingKey (service_name svc) (service_methods svc) c0)"
      by blast
    from d svc(3) have "d \<in> set (fst (build_methods routingKey (service_name svc) (service_methods svc) c0))"
      by simp
    from build_methods_origin [OF this] obtain m where
      "m \<in> set (service_methods svc)" "annotated_with routingKey m" "Name d = method_name m"
      by blast
    with svc show ?thesis by (auto simp: annotated_with_iff)
  qed
  have key: "optionsKey g \<noteq> []" if g: "g \<in> set ?gs" for g
  proof -
    from build_files_groups [OF g] have k: "optionsKey g = routingKey" and "methods g \<noteq> []"
      by blast+
    then obtain d where "d \<in> set (methods g)" by (cases "methods g") auto
    from origin [OF g this] have "routingKey \<noteq> []" by auto
    with k show ?thesis by simp
  qed
  have names: "concat (map (\<lambda>g. map Name (methods g)) ?gs) =
       map method_name
         (filter (\<lambda>m. \<exists>a. method_annotation m = Some a \<and> ann_key a \<noteq> [] \<and> ann_key a = routingKey)
            (concat (map service_methods (all_services ds))))"
    using build_files_all_names [of routingKey pkg ds Map.empty]
    by (simp add: annotated_with_iff [abs_def])
  show ?thesis
    using build_resolved [OF assms, of routingKey pkg] origin key names by blast
qed

text \<open>
  C7 on the README's file for the key \<open>bot\<close>: \<open>Ping\<close> (no annotation) and \<open>Hidden\<close>
  (empty key) are left out.
\<close>

theorem build_excludes_unannotated_witness:
  "types_resolved [menu_file] \<and>
   (\<exists>gs. build [menu_file] ''bot'' telegram = Inr gs \<and>
      concat (map (\<lambda>g. map Name (methods g)) gs) = [''UpdateCount'', ''ProcessMenu''] \<and>
      (\<forall>g \<in> set gs. optionsKey g \<noteq> []))"
proof -
  have r: "types_resolved [menu_file]"
    by (simp add: types_resolved_def menu_file_def rpc_def)
  have "map method_name
         (filter (\<lambda>m. \<exists>a. method_annotation m = Some a \<and> ann_key a \<noteq> [] \<and> ann_key a = ''bot'')
            (concat (map service_methods (all_services [menu_file]))))
        = [''UpdateCount'', ''ProcessMenu'']"
    by (simp add: all_services_def menu_file_def rpc_def)
  with r build_excludes_unannotated [OF r, of "''bot''" telegram] show ?thesis
    by auto
qed

text \<open>
  C8: on a descriptor set whose type references resolve, the groups that \<open>build\<close>
  returns are, in order, the services that have at least one method annotated with the
  routing key, and the methods of each group are, in order, the methods of its service
  annotated with the routing key; every group carries the routing key and has at least
  one method. A method annotated with another key is in no group of the pass, and a
  service without a method for the key has no group.
\<close>

theorem build_key_partition:
  assumes "types_resolved ds"
  shows "\<exists>gs. build ds routingKey pkg = Inr gs \<and>
     map (\<lambda>g. (serviceName g, map Name (methods g))) gs =
       map (\<lambda>svc. (service_full_name svc,
              map method_name (filter (annotated_with routingKey) (service_methods svc))))
         (filter (\<lambda>svc. \<exists>m \<in> set (service_methods svc). annotated_with routingKey m)
            (all_services ds)) \<and>
     (\<forall>g \<in> set gs. optionsKey g = routingKey \<and> methods g \<noteq> [] \<and>
        (\<forall>d \<in> set (methods g). \<exists>svc \<in> set (all_services ds). \<exists>m \<in> set (service_methods svc).
           serviceName g = service_full_name svc \<and> Name d = method_name m \<and>
           annotated_with routingKey m))"
proof -
  let ?gs = "fst (build_files routingKey pkg ds Map.empty)"
  have view: "map (\<lambda>g. (serviceName g, map Name (methods g))) ?gs =
       map (\<lambda>svc. (service_full_name svc,
              map method_name (filter (annotated_with routingKey) (service_methods svc))))
         (filter (\<lambda>svc. \<exists>m \<in> set (service_methods svc). annotated_with routingKey m)
            (all_services ds))"
    using arg_cong [OF build_files_view [of routingKey pkg ds Map.empty], of "map snd"]
    by (simp add: comp_def has_match_iff)
  have each: "optionsKey g = routingKey \<and> methods g \<noteq> [] \<and>
        (\<forall>d \<in> set (methods g). \<exists>svc \<in> set (all_services ds). \<exists>m \<in> set (service_methods svc).
           serviceName g = service_full_name svc \<and> Name d = method_name m \<and>
           annotated_with routingKey m)"
    if g: "g \<in> set ?gs" for g
  proof -
    from build_files_groups [OF g] obtain svc c0 where
      k: "optionsKey g = routingKey" "methods g \<noteq> []" and
      svc: "svc \<in> set (all_services ds)" "serviceName g = service_full_name svc"
        "methods g = fst (build_methods routingKey (service_name svc) (service_methods svc) c0)"
      by blast
    have "\<exists>m \<in> set (service_methods svc). Name d = method_name m \<and> annotated_with routingKey m"
      if "d \<in> set (methods g)" for d
      using build_methods_origin [of d routingKey "service_name svc" "service_methods svc" c0]
        that svc(3) by auto
    with k svc show ?thesis by blast
  qed
  show ?thesis
    using build_resolved [OF assms, of routingKey pkg] view each by blast
qed

text \<open>
  C8 on the README's file for the key \<open>http\<close>: one method of each service, and none
  of the methods annotated for \<open>bot\<close>.
\<close>

theorem build_key_partition_witness:
  "types_resolved [menu_file] \<and>
   (\<exists>gs. build [menu_file] ''http'' telegram = Inr gs \<and>
      map (\<lambda>g. (serviceName g, map Name (methods g))) gs =
        [(''bot.v1.MenuService'', [''GetMenu'']), (''bot.v1.AdminService'', [''Reload''])] \<and>
      (\<forall>g \<in> set gs. optionsKey g = ''http''))"
proof -
  have r: "types_resolved [menu_file]"
    by (simp add: types_resolved_def menu_file_def rpc_def)
  have "map (\<lambda>svc. (service_full_name svc,
              map method_name (filter (annotated_with ''http'') (service_methods svc))))
         (filter (\<lambda>svc. \<exists>m \<in> set (service_methods svc). annotated_with ''http'' m)
            (all_services [menu_file]))
        = [(''bot.v1.MenuService'', [''GetMenu'']), (''bot.v1.AdminService'', [''Reload''])]"
    by (simp add: all_services_def menu_file_def rpc_def annotated_with_def)
  with r build_key_partition [OF r, of "''http''" telegram] show ?thesis
    by auto
qed

text \<open>
  The end-to-end scenario of the specification: building the README's file for the key
  \<open>bot\<close> gives one group with \<open>UpdateCount\<close> and \<open>ProcessMenu\<close> in that order, both
  numbered 0.
\<close>

lemma build_end_to_end_scenario:
  "map (\<lambda>g. (optionsKey g, serviceType g, serviceName g,
          map (\<lambda>d. (Name d, OriginalName d, Num d)) (methods g)))
     (fst (build_files ''bot'' telegram [menu_file] Map.empty)) =
   [(''bot'', ''MenuService'', ''bot.v1.MenuService'',
     [(''UpdateCount'', ''MenuServiceUpdateCount'', 0),
      (''ProcessMenu'', ''MenuServiceProcessMenu'', 0)])]"
  by (simp add: menu_file_def rpc_def extract_annotation_def assign_def make_method_def Let_def)

end
